theory Spec2Isabelle
  imports Complex_Main
begin

section \<open>JavaScript values\<close>

text \<open>
  The library works on arbitrary JavaScript values: documents, schemas and the
  instances of the extended types. An object carries the class it was constructed
  from and its own enumerable properties in insertion order; a lookup takes the first
  entry of a key, so that a well-formed object has distinct keys. What a date and a
  regular expression hold is not a property: the time value in milliseconds, and the
  source and the flags, stay with the class. Numbers are exact rationals: rounding to
  double precision, NaN and the infinities are left out, and so is the invalid date.
\<close>

datatype cls =
    Plain
  | DateC int
  | RegExpC string string
  | DBRefC | MaxKeyC | MinKeyC | LongC | ObjectIDC | TimestampC

datatype jsval =
    JUndefined
  | JNull
  | JBool bool
  | JNum rat
  | JStr string
  | JArr "jsval list"
  | JObj cls "(string \<times> jsval) list"
  | JHost string

text \<open>
  \<open>JHost n\<close> is the function that every object inherits from \<open>Object.prototype\<close>
  under the name \<open>n\<close>. The program never builds one; it can only read one out of
  an object by a computed key.
\<close>

text \<open>
  What a call does besides returning: it throws, or it leaves the fragment of the
  language described here (\<open>Unmodelled\<close>; this is not an exception of the program,
  and no theorem below reads it as one).
\<close>

datatype error =
    TypeError
  | SyntaxError
  | Error string
  | Unmodelled

type_synonym 'a result = "error + 'a"

primrec sequence :: "'a result list \<Rightarrow> 'a list result" where
  "sequence [] = Inr []"
| "sequence (r # rs) =
     (case r of
        Inl e \<Rightarrow> Inl e
      | Inr v \<Rightarrow> (case sequence rs of Inl e \<Rightarrow> Inl e | Inr vs \<Rightarrow> Inr (v # vs)))"

subsection \<open>Truthiness and type tests\<close>

fun truthy :: "jsval \<Rightarrow> bool" where
  "truthy JUndefined = False"
| "truthy JNull = False"
| "truthy (JBool b) = b"
| "truthy (JNum n) = (n \<noteq> 0)"
| "truthy (JStr s) = (s \<noteq> [])"
| "truthy (JArr xs) = True"
| "truthy (JObj c ps) = True"
| "truthy (JHost n) = True"

text \<open>lodash: \<open>_.isArray\<close>, and \<open>_.isObjectLike\<close> (\<open>typeof v == 'object'\<close> and not null).\<close>

fun isArray :: "jsval \<Rightarrow> bool" where
  "isArray (JArr xs) = True"
| "isArray v = False"


fun isString :: "jsval \<Rightarrow> bool" where
  "isString (JStr s) = True"
| "isString v = False"

subsection \<open>Property access\<close>

definition object_prototype_functions :: "string list" where
  "object_prototype_functions =
     [''constructor'', ''toString'', ''toLocaleString'', ''valueOf'',
      ''hasOwnProperty'', ''isPrototypeOf'', ''propertyIsEnumerable'',
      ''__defineGetter__'', ''__defineSetter__'',
      ''__lookupGetter__'', ''__lookupSetter__'']"

text \<open>
  The four property names that the program reads by a fixed name. None of them is a
  member of a built-in prototype or of a prototype of the driver's classes: the
  driver's constructors write the runtime tag \<open>_bsontype\<close> into the instance, as a
  property of its own.
\<close>

definition fixed_names :: "string list" where
  "fixed_names = [''type'', ''items'', ''properties'', ''_bsontype'']"

text \<open>
  \<open>get_prop v k\<close> is \<open>v[k]\<close> for a string \<open>k\<close>. Reading a property of
  \<open>undefined\<close> or \<open>null\<close> throws. A plain object answers with its own property, then
  with the function it inherits, then with \<open>undefined\<close>. For every other value the own
  properties and the four fixed names are described; the other members of its
  prototype are not, and neither is the accessor \<open>__proto__\<close>.
\<close>

fun get_prop :: "jsval \<Rightarrow> string \<Rightarrow> jsval result" where
  "get_prop JUndefined k = Inl TypeError"
| "get_prop JNull k = Inl TypeError"
| "get_prop (JObj c ps) k =
     (case map_of ps k of
        Some v \<Rightarrow> Inr v
      | None \<Rightarrow>
          if c = Plain then
            (if k \<in> set object_prototype_functions then Inr (JHost k)
             else if k = ''__proto__'' then Inl Unmodelled
             else Inr JUndefined)
          else if k \<in> set fixed_names then Inr JUndefined
          else Inl Unmodelled)"
| "get_prop v k = (if k \<in> set fixed_names then Inr JUndefined else Inl Unmodelled)"

section \<open>The host's JSON parser\<close>

text \<open>
  \<open>JSON.parse\<close> on a string, after the JSON grammar: white space, the three
  literals, numbers, strings with their escapes, arrays and objects (a repeated key
  keeps its place and takes the last value). A character is one code unit below 256;
  an escape \<open>\\uXXXX\<close> beyond that is not described. The recursion runs on a
  counter that starts above twice the length of the text: a value and the list it
  opens take one step each, and every second step consumes a character.
\<close>

definition is_ws :: "char \<Rightarrow> bool" where
  "is_ws c = (c = CHR '' '' \<or> c = CHR 0x09 \<or> c = CHR 0x0A \<or> c = CHR 0x0D)"

definition skip_ws :: "string \<Rightarrow> string" where
  "skip_ws cs = dropWhile is_ws cs"

definition digit_val :: "char \<Rightarrow> nat option" where
  "digit_val c = map_of (zip ''0123456789'' [0, 1, 2, 3, 4, 5, 6, 7, 8, 9]) c"

definition hex_val :: "char \<Rightarrow> nat option" where
  "hex_val c =
     map_of (zip ''0123456789abcdefABCDEF''
               [0, 1, 2, 3, 4, 5, 6, 7, 8, 9, 10, 11, 12, 13, 14, 15, 10, 11, 12, 13, 14, 15]) c"

fun take_digits :: "string \<Rightarrow> nat list \<times> string" where
  "take_digits [] = ([], [])"
| "take_digits (c # cs) =
     (case digit_val c of
        None \<Rightarrow> ([], c # cs)
      | Some d \<Rightarrow> (case take_digits cs of (ds, rest) \<Rightarrow> (d # ds, rest)))"

definition digits_to_nat :: "nat list \<Rightarrow> nat" where
  "digits_to_nat ds = foldl (\<lambda>a d. 10 * a + d) 0 ds"

text \<open>The optional fraction and exponent of a number; \<open>None\<close> is a syntax error.\<close>

definition parse_frac :: "string \<Rightarrow> (rat \<times> string) option" where
  "parse_frac cs =
     (case cs of
        c # r \<Rightarrow>
          if c = CHR ''.'' then
            (case take_digits r of
               (fs, rest) \<Rightarrow>
                 if fs = [] then None
                 else Some (of_nat (digits_to_nat fs) / 10 ^ length fs, rest))
          else Some (0, cs)
      | [] \<Rightarrow> Some (0, cs))"

definition parse_exp :: "string \<Rightarrow> (rat \<times> string) option" where
  "parse_exp cs =
     (case cs of
        c # r \<Rightarrow>
          if c = CHR ''e'' \<or> c = CHR ''E'' then
            (let neg = (case r of s # r' \<Rightarrow> s = CHR ''-'' | [] \<Rightarrow> False);
                 signed = (case r of s # r' \<Rightarrow> s = CHR ''-'' \<or> s = CHR ''+'' | [] \<Rightarrow> False);
                 r1 = (if signed then tl r else r)
             in case take_digits r1 of
                  (es, rest) \<Rightarrow>
                    if es = [] then None
                    else Some (if neg then 1 / 10 ^ digits_to_nat es
                               else 10 ^ digits_to_nat es, rest))
          else Some (1, cs)
      | [] \<Rightarrow> Some (1, cs))"

definition parse_number :: "string \<Rightarrow> (rat \<times> string) option" where
  "parse_number cs =
     (let neg = (case cs of c # r \<Rightarrow> c = CHR ''-'' | [] \<Rightarrow> False);
          cs1 = (if neg then tl cs else cs)
      in case take_digits cs1 of
           (ds, cs2) \<Rightarrow>
             if ds = [] \<or> (1 < length ds \<and> hd ds = 0) then None
             else
               (case parse_frac cs2 of
                  None \<Rightarrow> None
                | Some (f, cs3) \<Rightarrow>
                    (case parse_exp cs3 of
                       None \<Rightarrow> None
                     | Some (e, cs4) \<Rightarrow>
                         Some ((if neg then - 1 else 1) * (of_nat (digits_to_nat ds) + f) * e,
                               cs4))))"

definition simple_escape :: "char \<Rightarrow> char option" where
  "simple_escape c =
     map_of [(CHR 0x22, CHR 0x22), (CHR 0x5C, CHR 0x5C), (CHR ''/'', CHR ''/''),
             (CHR ''b'', CHR 0x08), (CHR ''f'', CHR 0x0C), (CHR ''n'', CHR 0x0A),
             (CHR ''r'', CHR 0x0D), (CHR ''t'', CHR 0x09)] c"

definition unicode_escape :: "string \<Rightarrow> char result" where
  "unicode_escape hs =
     (case map hex_val hs of
        [Some a, Some b, Some c, Some d] \<Rightarrow>
          if a = 0 \<and> b = 0 then Inr (char_of (16 * c + d)) else Inl Unmodelled
      | _ \<Rightarrow> Inl SyntaxError)"

fun parse_chars :: "string \<Rightarrow> (string \<times> string) result" where
  "parse_chars [] = Inl SyntaxError"
| "parse_chars (c # cs) =
     (if c = CHR 0x22 then Inr ([], cs)
      else if c = CHR 0x5C then
        (case cs of
           [] \<Rightarrow> Inl SyntaxError
         | e # r \<Rightarrow>
             if e = CHR ''u'' then
               (case unicode_escape (take 4 r) of
                  Inl err \<Rightarrow> Inl err
                | Inr ch \<Rightarrow>
                    (case parse_chars (drop 4 r) of
                       Inl err \<Rightarrow> Inl err
                     | Inr (s, rest) \<Rightarrow> Inr (ch # s, rest)))
             else
               (case simple_escape e of
                  None \<Rightarrow> Inl SyntaxError
                | Some ch \<Rightarrow>
                    (case parse_chars r of
                       Inl err \<Rightarrow> Inl err
                     | Inr (s, rest) \<Rightarrow> Inr (ch # s, rest))))
      else if (of_char c :: nat) < 32 then Inl SyntaxError
      else
        (case parse_chars cs of
           Inl err \<Rightarrow> Inl err
         | Inr (s, rest) \<Rightarrow> Inr (c # s, rest)))"

text \<open>\<open>o[k] = v\<close> on the own properties of an object being built.\<close>

fun set_prop :: "(string \<times> jsval) list \<Rightarrow> string \<Rightarrow> jsval \<Rightarrow> (string \<times> jsval) list" where
  "set_prop [] k v = [(k, v)]"
| "set_prop ((k', v') # ps) k v =
     (if k' = k then (k, v) # ps else (k', v') # set_prop ps k v)"

fun parse_value :: "nat \<Rightarrow> string \<Rightarrow> (jsval \<times> string) result"
  and parse_elements :: "nat \<Rightarrow> string \<Rightarrow> jsval list \<Rightarrow> (jsval \<times> string) result"
  and parse_members :: "nat \<Rightarrow> string \<Rightarrow> (string \<times> jsval) list \<Rightarrow> (jsval \<times> string) result"
where
  "parse_value 0 cs = Inl Unmodelled"
| "parse_value (Suc n) cs =
     (case cs of
        [] \<Rightarrow> Inl SyntaxError
      | c # r \<Rightarrow>
          if c = CHR ''['' then
            (case skip_ws r of
               [] \<Rightarrow> Inl SyntaxError
             | d # r' \<Rightarrow> if d = CHR '']'' then Inr (JArr [], r')
                         else parse_elements n (d # r') [])
          else if c = CHR ''{'' then
            (case skip_ws r of
               [] \<Rightarrow> Inl SyntaxError
             | d # r' \<Rightarrow> if d = CHR ''}'' then Inr (JObj Plain [], r')
                         else parse_members n (d # r') [])
          else if c = CHR 0x22 then
            (case parse_chars r of
               Inl err \<Rightarrow> Inl err
             | Inr (s, rest) \<Rightarrow> Inr (JStr s, rest))
          else if take 4 cs = ''true'' then Inr (JBool True, drop 4 cs)
          else if take 5 cs = ''false'' then Inr (JBool False, drop 5 cs)
          else if take 4 cs = ''null'' then Inr (JNull, drop 4 cs)
          else
            (case parse_number cs of
               None \<Rightarrow> Inl SyntaxError
             | Some (q, rest) \<Rightarrow> Inr (JNum q, rest)))"
| "parse_elements 0 cs acc = Inl Unmodelled"
| "parse_elements (Suc n) cs acc =
     (case parse_value n cs of
        Inl err \<Rightarrow> Inl err
      | Inr (v, rest) \<Rightarrow>
          (case skip_ws rest of
             [] \<Rightarrow> Inl SyntaxError
           | d # r \<Rightarrow>
               if d = CHR '']'' then Inr (JArr (acc @ [v]), r)
               else if d = CHR '','' then parse_elements n (skip_ws r) (acc @ [v])
               else Inl SyntaxError))"
| "parse_members 0 cs acc = Inl Unmodelled"
| "parse_members (Suc n) cs acc =
     (case cs of
        [] \<Rightarrow> Inl SyntaxError
      | q # r \<Rightarrow>
          if q \<noteq> CHR 0x22 then Inl SyntaxError
          else
            (case parse_chars r of
               Inl err \<Rightarrow> Inl err
             | Inr (k, rest) \<Rightarrow>
                 (case skip_ws rest of
                    [] \<Rightarrow> Inl SyntaxError
                  | colon # r1 \<Rightarrow>
                      if colon \<noteq> CHR '':'' then Inl SyntaxError
                      else
                        (case parse_value n (skip_ws r1) of
                           Inl err \<Rightarrow> Inl err
                         | Inr (v, rest') \<Rightarrow>
                             (case skip_ws rest' of
                                [] \<Rightarrow> Inl SyntaxError
                              | d # r2 \<Rightarrow>
                                  if d = CHR ''}'' then Inr (JObj Plain (set_prop acc k v), r2)
                                  else if d = CHR '','' then
                                    parse_members n (skip_ws r2) (set_prop acc k v)
                                  else Inl SyntaxError)))))"

definition JSON_parse :: "string \<Rightarrow> jsval result" where
  "JSON_parse s =
     (case parse_value (Suc (2 * length s)) (skip_ws s) of
        Inl err \<Rightarrow> Inl err
      | Inr (v, rest) \<Rightarrow> if skip_ws rest = [] then Inr v else Inl SyntaxError)"

section \<open>The type predicates\<close>













section \<open>The schema catalog\<close>

definition object :: "(string \<times> jsval) list \<Rightarrow> jsval" where
  "object ps = JObj Plain ps"

definition ejsonSchemas :: jsval where
  "ejsonSchemas = object
     [(''Date'', object
         [(''type'', JStr ''object''),
          (''required'', JArr [JStr ''$date'']),
          (''properties'', object
             [(''$date'', object [(''type'', JStr ''string'')])]),
          (''additionalProperties'', JBool False)]),
      (''DBRef'', object
         [(''type'', JStr ''object''),
          (''required'', JArr [JStr ''$ref'']),
          (''properties'', object
             [(''$ref'', object [(''type'', JStr ''string'')]),
              (''$id'', object [])]),
          (''additionalProperties'', JBool False)]),
      (''MaxKey'', object
         [(''type'', JStr ''object''),
          (''required'', JArr [JStr ''$maxKey'']),
          (''properties'', object
             [(''$maxKey'', object
                 [(''type'', JStr ''number''), (''minimum'', JNum 1), (''maximum'', JNum 1)])]),
          (''additionalProperties'', JBool False)]),
      (''MinKey'', object
         [(''type'', JStr ''object''),
          (''required'', JArr [JStr ''$minKey'']),
          (''properties'', object
             [(''$minKey'', object
                 [(''type'', JStr ''number''), (''minimum'', JNum 1), (''maximum'', JNum 1)])]),
          (''additionalProperties'', JBool False)]),
      (''Long'', object
         [(''type'', JStr ''object''),
          (''required'', JArr [JStr ''$numberLong'']),
          (''properties'', object
             [(''$numberLong'', object [(''type'', JStr ''string'')])]),
          (''additionalProperties'', JBool False)]),
      (''ObjectId'', object
         [(''type'', JStr ''object''),
          (''required'', JArr [JStr ''$oid'']),
          (''properties'', object
             [(''$oid'', object [(''type'', JStr ''string'')])]),
          (''additionalProperties'', JBool False)]),
      (''Regex'', object
         [(''type'', JStr ''object''),
          (''required'', JArr [JStr ''$regex'']),
          (''properties'', object
             [(''$regex'', object [(''type'', JStr ''string'')]),
              (''$options'', object [(''type'', JStr ''string'')])]),
          (''additionalProperties'', JBool False)]),
      (''Timestamp'', object
         [(''type'', JStr ''object''),
          (''required'', JArr [JStr ''$timestamp'']),
          (''properties'', object
             [(''$timestamp'', object
                 [(''type'', JStr ''object''),
                  (''properties'', object
                     [(''t'', object [(''type'', JStr ''number'')]),
                      (''i'', object [(''type'', JStr ''number'')])]),
                  (''additionalProperties'', JBool False)])]),
          (''additionalProperties'', JBool False)]),
      (''Undefined'', object
         [(''type'', JStr ''object''),
          (''required'', JArr [JStr ''$undefined'']),
          (''properties'', object
             [(''$undefined'', object [(''type'', JStr ''boolean'')])]),
          (''additionalProperties'', JBool False)])]"

section \<open>Computed keys\<close>

fun join :: "string \<Rightarrow> string list \<Rightarrow> string" where
  "join sep [] = []"
| "join sep [s] = s"
| "join sep (s # t # ts) = s @ sep @ join sep (t # ts)"

text \<open>
  \<open>o[v]\<close> turns \<open>v\<close> into a property key first. A string is its own key; a boolean,
  \<open>null\<close> and \<open>undefined\<close> are spelled out; an array joins the keys of its elements
  with commas, \<open>null\<close> and \<open>undefined\<close> elements counting as empty. An object is
  asked for its \<open>toString\<close> and then for its \<open>valueOf\<close>: a plain object that does not
  override \<open>toString\<close> is \<open>[object Object]\<close>; one that overrides it with something
  that cannot be called falls back on \<open>valueOf\<close>, which, inherited or not callable,
  gives no primitive, and the conversion throws a type error.

  The decimal text of a number and the source text of a function are not spelled out
  (\<open>Unspelled\<close>), and neither is a text joined from such a text. No such text is the
  name of a property of the catalog, own or inherited: it is the text of a number, or
  of a function, or it has a comma. The text of an instance of a class and the call
  of an inherited function set as \<open>toString\<close> or \<open>valueOf\<close> are not described.
\<close>

datatype pkey = Spelled string | Unspelled

fun texts :: "pkey list \<Rightarrow> string list option" where
  "texts [] = Some []"
| "texts (Spelled s # ks) = (case texts ks of None \<Rightarrow> None | Some ts \<Rightarrow> Some (s # ts))"
| "texts (Unspelled # ks) = None"

definition join_keys :: "pkey list \<Rightarrow> pkey" where
  "join_keys ks = (case texts ks of Some ts \<Rightarrow> Spelled (join '','' ts) | None \<Rightarrow> Unspelled)"

fun callable :: "jsval \<Rightarrow> bool" where
  "callable (JHost n) = True"
| "callable v = False"

fun to_property_key :: "jsval \<Rightarrow> pkey result" where
  "to_property_key (JStr s) = Inr (Spelled s)"
| "to_property_key (JBool b) = Inr (Spelled (if b then ''true'' else ''false''))"
| "to_property_key JNull = Inr (Spelled ''null'')"
| "to_property_key JUndefined = Inr (Spelled ''undefined'')"
| "to_property_key (JArr xs) =
     (case sequence
             (map (\<lambda>x. if x = JNull \<or> x = JUndefined then Inr (Spelled [])
                        else to_property_key x) xs) of
        Inl e \<Rightarrow> Inl e
      | Inr ks \<Rightarrow> Inr (join_keys ks))"
| "to_property_key (JObj c ps) =
     (if c \<noteq> Plain then Inl Unmodelled
      else case map_of ps ''toString'' of
        None \<Rightarrow> Inr (Spelled ''[object Object]'')
      | Some f \<Rightarrow>
          if callable f then Inl Unmodelled
          else (case map_of ps ''valueOf'' of
                  None \<Rightarrow> Inl TypeError
                | Some g \<Rightarrow> if callable g then Inl Unmodelled else Inl TypeError))"
| "to_property_key (JNum n) = Inr Unspelled"
| "to_property_key (JHost n) = Inr Unspelled"

section \<open>lodash's collection functions\<close>

text \<open>
  \<open>_.map\<close> over an array and \<open>_.mapValues\<close> over the own enumerable properties of an
  object, from left to right; the first callback that throws ends the call. The
  result of \<open>_.mapValues\<close> is a plain object whatever the class of its argument.
\<close>

definition map_array :: "(jsval \<Rightarrow> jsval result) \<Rightarrow> jsval list \<Rightarrow> jsval result" where
  "map_array f xs =
     (case sequence (map f xs) of Inl e \<Rightarrow> Inl e | Inr ys \<Rightarrow> Inr (JArr ys))"

definition mapValues ::
  "(jsval \<Rightarrow> string \<Rightarrow> jsval result) \<Rightarrow> (string \<times> jsval) list \<Rightarrow> jsval result" where
  "mapValues f ps =
     (case sequence
             (map (\<lambda>p. case f (snd p) (fst p) of
                         Inl e \<Rightarrow> Inl e
                       | Inr w \<Rightarrow> Inr (fst p, w)) ps) of
        Inl e \<Rightarrow> Inl e
      | Inr qs \<Rightarrow> Inr (JObj Plain qs))"

lemma map_array_cong [fundef_cong]:
  "xs = ys \<Longrightarrow> (\<And>x. x \<in> set ys \<Longrightarrow> f x = g x) \<Longrightarrow> map_array f xs = map_array g ys"
  unfolding map_array_def by (simp cong: map_cong)

lemma mapValues_cong [fundef_cong]:
  "ps = qs \<Longrightarrow> (\<And>k v. (k, v) \<in> set qs \<Longrightarrow> f v k = g v k)
   \<Longrightarrow> mapValues f ps = mapValues g qs"
proof -
  assume eq: "ps = qs" and fg: "\<And>k v. (k, v) \<in> set qs \<Longrightarrow> f v k = g v k"
  have m: "map (\<lambda>p. case f (snd p) (fst p) of Inl e \<Rightarrow> Inl e | Inr w \<Rightarrow> Inr (fst p, w)) qs
      = map (\<lambda>p. case g (snd p) (fst p) of Inl e \<Rightarrow> Inl e | Inr w \<Rightarrow> Inr (fst p, w)) qs"
    by (rule map_cong) (auto simp: fg)
  show ?thesis unfolding mapValues_def eq by (simp only: m)
qed

section \<open>The schema rewriter\<close>

text \<open>
  The replacement that \<open>toJSONSchema\<close> looks up for an object-like node:
  \<open>self.ejsonSchemas[schema.type]\<close> when \<open>schema.type\<close> is truthy, and
  \<open>undefined\<close> otherwise. Under a key that is not spelled out the catalog has
  nothing.
\<close>

definition schemaReplacement :: "jsval \<Rightarrow> jsval result" where
  "schemaReplacement schema =
     (case get_prop schema ''type'' of
        Inl e \<Rightarrow> Inl e
      | Inr t \<Rightarrow>
          if truthy t then
            (case to_property_key t of
               Inl e \<Rightarrow> Inl e
             | Inr (Spelled k) \<Rightarrow> get_prop ejsonSchemas k
             | Inr Unspelled \<Rightarrow> Inr JUndefined)
          else Inr JUndefined)"

fun toJSONSchema :: "jsval \<Rightarrow> jsval result" where
  "toJSONSchema (JArr xs) = map_array (\<lambda>elem. toJSONSchema elem) xs"
| "toJSONSchema (JObj c ps) =
     (case schemaReplacement (JObj c ps) of
        Inl e \<Rightarrow> Inl e
      | Inr r \<Rightarrow>
          if truthy r then Inr r
          else mapValues (\<lambda>v k. toJSONSchema v) ps)"
| "toJSONSchema schema = Inr schema"

section \<open>The coercion engine\<close>

text \<open>\<open>schema && schema.items\<close> and \<open>schema && schema.properties && schema.properties[k]\<close>.\<close>

definition items_of :: "jsval \<Rightarrow> jsval result" where
  "items_of schema = (if truthy schema then get_prop schema ''items'' else Inr schema)"

definition property_of :: "jsval \<Rightarrow> string \<Rightarrow> jsval result" where
  "property_of schema k =
     (if truthy schema then
        (case get_prop schema ''properties'' of
           Inl e \<Rightarrow> Inl e
         | Inr props \<Rightarrow> if truthy props then get_prop props k else Inr props)
      else Inr schema)"

text \<open>
  The decoder of the extended types, \<open>EJSON.deserialize\<close>, belongs to another
  package; \<open>coerce\<close> takes it as its first argument.
\<close>

fun coerce :: "(jsval \<Rightarrow> jsval result) \<Rightarrow> jsval \<Rightarrow> jsval \<Rightarrow> jsval result" where
  "coerce deserialize obj schema =
     (if \<not> truthy schema then Inr obj
      else case obj of
        JArr xs \<Rightarrow>
          map_array (\<lambda>x. case items_of schema of
                            Inl e \<Rightarrow> Inl e
                          | Inr s \<Rightarrow> coerce deserialize x s) xs
      | JObj c ps \<Rightarrow>
          mapValues (\<lambda>x k. case property_of schema k of
                              Inl e \<Rightarrow> Inl e
                            | Inr s \<Rightarrow> coerce deserialize x s) ps
      | JStr str \<Rightarrow>
          (case get_prop schema ''type'' of
             Inl e \<Rightarrow> Inl e
           | Inr schemaType \<Rightarrow>
               if truthy schemaType then
                 (if schemaType = JStr ''number'' \<or> schemaType = JStr ''integer''
                     \<or> schemaType = JStr ''boolean''
                  then JSON_parse str
                  else if schemaType = JStr ''ObjectId''
                  then deserialize (object [(''$oid'', JStr str)])
                  else if schemaType = JStr ''Date''
                  then deserialize (object [(''$date'', JStr str)])
                  else Inr obj)
               else Inr obj)
      | _ \<Rightarrow> Inr obj)"

section \<open>The validator\<close>

text \<open>
  The validation engine (z-schema) and the serializer \<open>EJSON.stringify\<close> belong to
  other packages. The engine is taken at its interface: \<open>validateSchema\<close> and
  \<open>validate\<close> answer with a boolean, or throw an exception of which the handler
  reads the message (\<open>Inl m\<close>); \<open>getLastErrors\<close> gives the report of the validation
  that has just run, which is why it takes the same arguments. The serializer gives
  the text that is appended to the message, or throws.
\<close>

record engine =
  zs_validateSchema :: "jsval \<Rightarrow> string + bool"
  zs_validate :: "jsval \<Rightarrow> jsval \<Rightarrow> string + bool"
  zs_getLastErrors :: "jsval \<Rightarrow> jsval \<Rightarrow> jsval"

text \<open>The object that \<open>validate\<close> returns; \<open>error\<close> is \<open>None\<close> when the property is not set.\<close>

record validation_result =
  valid :: bool
  error :: "jsval option"

text \<open>
  What the handler throws. The message is put together from left to right inside the
  handler, so an exception of the serializer, on the schema or then on the document,
  takes the place of the descriptive error.
\<close>

definition wrapped ::
  "(jsval \<Rightarrow> string result) \<Rightarrow> jsval \<Rightarrow> jsval \<Rightarrow> string \<Rightarrow> error" where
  "wrapped stringify schema obj reason =
     (case stringify schema of
        Inl e \<Rightarrow> e
      | Inr s \<Rightarrow>
          (case stringify obj of
             Inl e \<Rightarrow> e
           | Inr d \<Rightarrow>
               Error (''Exception in compiling schema or validating ejson schema: '' @ s
                      @ '' data: '' @ d @ '' -- Reason: '' @ reason)))"

text \<open>
  The body of the \<open>try\<close> block: the value assigned to \<open>result.valid\<close>, or the message
  of what was thrown.
\<close>

definition try_block :: "engine \<Rightarrow> jsval \<Rightarrow> jsval \<Rightarrow> string + bool" where
  "try_block validator obj schema =
     (case zs_validateSchema validator schema of
        Inl m \<Rightarrow> Inl m
      | Inr isSchemaValid \<Rightarrow>
          if \<not> isSchemaValid then Inl ''Invalid schema.''
          else zs_validate validator obj schema)"

text \<open>\<open>a[0]\<close> on what \<open>getLastErrors\<close> returned.\<close>

fun first_elem :: "jsval \<Rightarrow> jsval result" where
  "first_elem JUndefined = Inl TypeError"
| "first_elem JNull = Inl TypeError"
| "first_elem (JArr []) = Inr JUndefined"
| "first_elem (JArr (x # xs)) = Inr x"
| "first_elem (JObj c ps) = get_prop (JObj c ps) ''0''"
| "first_elem v = Inl Unmodelled"

definition first_message :: "jsval \<Rightarrow> jsval result" where
  "first_message errors =
     (case first_elem errors of
        Inl e \<Rightarrow> Inl e
      | Inr e0 \<Rightarrow> get_prop e0 ''message'')"

text \<open>
  \<open>validate\<close>. The schema is rewritten before the \<open>try\<close> block, so what the rewriter
  throws leaves the call as it is; the message of the first issue is read after the
  handler.
\<close>

definition validate ::
  "(jsval \<Rightarrow> string result) \<Rightarrow> engine \<Rightarrow> jsval \<Rightarrow> jsval \<Rightarrow> validation_result result" where
  "validate stringify validator obj schema0 =
     (case toJSONSchema schema0 of
        Inl e \<Rightarrow> Inl e
      | Inr schema \<Rightarrow>
          (case try_block validator obj schema of
             Inl reason \<Rightarrow> Inl (wrapped stringify schema obj reason)
           | Inr isValid \<Rightarrow>
               if \<not> isValid then
                 (case first_message (zs_getLastErrors validator obj schema) of
                    Inl e \<Rightarrow> Inl e
                  | Inr m \<Rightarrow> Inr \<lparr>valid = False, error = Some m\<rparr>)
               else Inr \<lparr>valid = True, error = None\<rparr>))"

section \<open>Schema validation for the keywords of the catalog\<close>

text \<open>
  What a document must satisfy under a schema, after JSON Schema draft 04, for the
  keywords that the catalog uses: \<open>type\<close>, \<open>minimum\<close>, \<open>maximum\<close>, \<open>required\<close>,
  \<open>properties\<close> and \<open>additionalProperties: false\<close>. A keyword constrains only the
  documents of the kind it speaks about.
\<close>

definition primitive_types :: "string list" where
  "primitive_types =
     [''array'', ''boolean'', ''integer'', ''number'', ''null'', ''object'', ''string'']"

fun has_type :: "string \<Rightarrow> jsval \<Rightarrow> bool" where
  "has_type t (JArr xs) = (t = ''array'')"
| "has_type t (JBool b) = (t = ''boolean'')"
| "has_type t (JNum q) = (t = ''number'' \<or> (t = ''integer'' \<and> q \<in> \<int>))"
| "has_type t JNull = (t = ''null'')"
| "has_type t (JObj c ps) = (t = ''object'')"
| "has_type t (JStr s) = (t = ''string'')"
| "has_type t v = False"

lemma map_of_size:
  "map_of ps k = Some v \<Longrightarrow> size v < Suc (size_list (size_prod (\<lambda>_. 0) size) ps)"
  by (induction ps) (auto split: if_splits)

fun keys_of :: "jsval option \<Rightarrow> string list" where
  "keys_of (Some (JObj c qs)) = map fst qs"
| "keys_of v = []"

lemma member_size:
  "p \<in> set qs \<Longrightarrow> size (snd p) \<le> size_list (size_prod (\<lambda>_. 0) size) qs"
proof (induction qs)
  case Nil
  then show ?case by simp
next
  case (Cons q qs)
  then show ?case by (cases q) auto
qed

lemma subschema_size:
  assumes "map_of ps k = Some (JObj e qs)" and "p \<in> set qs"
  shows "size (snd p) < Suc (size_list (size_prod (\<lambda>_. 0) size) ps)"
proof -
  have "size (JObj e qs) < Suc (size_list (size_prod (\<lambda>_. 0) size) ps)"
    using assms(1) by (rule map_of_size)
  moreover have "size (snd p) \<le> size_list (size_prod (\<lambda>_. 0) size) qs"
    using assms(2) by (rule member_size)
  ultimately show ?thesis by simp
qed

function conforms :: "jsval \<Rightarrow> jsval \<Rightarrow> bool" where
  "conforms (JObj c ps) v =
     ((case map_of ps ''type'' of Some (JStr t) \<Rightarrow> has_type t v | _ \<Rightarrow> True)
      \<and> (case (map_of ps ''minimum'', v) of (Some (JNum m), JNum q) \<Rightarrow> m \<le> q | _ \<Rightarrow> True)
      \<and> (case (map_of ps ''maximum'', v) of (Some (JNum m), JNum q) \<Rightarrow> q \<le> m | _ \<Rightarrow> True)
      \<and> (case v of
            JObj d fs \<Rightarrow>
              (case map_of ps ''required'' of
                 Some (JArr rs) \<Rightarrow> list_all (\<lambda>r. case r of JStr k \<Rightarrow> map_of fs k \<noteq> None | _ \<Rightarrow> True) rs
               | _ \<Rightarrow> True)
              \<and> (case map_of ps ''properties'' of
                   Some (JObj e qs) \<Rightarrow>
                     list_all (\<lambda>p. case map_of fs (fst p) of
                                     None \<Rightarrow> True
                                   | Some w \<Rightarrow> conforms (snd p) w) qs
                 | _ \<Rightarrow> True)
              \<and> (case map_of ps ''additionalProperties'' of
                   Some (JBool False) \<Rightarrow>
                     list_all (\<lambda>f. fst f \<in> set (keys_of (map_of ps ''properties''))) fs
                 | _ \<Rightarrow> True)
          | _ \<Rightarrow> True))"
| "conforms JUndefined v = True"
| "conforms JNull v = True"
| "conforms (JBool b) v = True"
| "conforms (JNum n) v = True"
| "conforms (JStr s) v = True"
| "conforms (JArr xs) v = True"
| "conforms (JHost n) v = True"
  by pat_completeness auto
termination
  apply (relation "measure (\<lambda>(s, v). size s)")
   apply simp
  apply (simp add: subschema_size)
  done


text \<open>
  The schemas that use these keywords only, each with a value of the expected kind.
\<close>

fun described :: "jsval \<Rightarrow> bool" where
  "described (JObj c ps) =
     (c = Plain \<and> distinct (map fst ps)
      \<and> list_all (\<lambda>p.
            if fst p = ''type'' then (case snd p of JStr t \<Rightarrow> t \<in> set primitive_types | _ \<Rightarrow> False)
            else if fst p = ''minimum'' \<or> fst p = ''maximum'' then (case snd p of JNum m \<Rightarrow> True | _ \<Rightarrow> False)
            else if fst p = ''required'' then
              (case snd p of
                 JArr rs \<Rightarrow> rs \<noteq> [] \<and> distinct rs \<and> list_all isString rs
               | _ \<Rightarrow> False)
            else if fst p = ''properties'' then
              (case snd p of
                 JObj e qs \<Rightarrow> e = Plain \<and> distinct (map fst qs) \<and> list_all (\<lambda>q. described (snd q)) qs
               | _ \<Rightarrow> False)
            else if fst p = ''additionalProperties'' then snd p = JBool False
            else False) ps)"
| "described v = False"

text \<open>
  An engine follows these rules when it accepts every such schema and answers for a
  document as the rules say. Nothing is asked of it on other schemas.
\<close>

definition follows_draft4 :: "engine \<Rightarrow> bool" where
  "follows_draft4 validator \<longleftrightarrow>
     (\<forall>schema. described schema \<longrightarrow>
        zs_validateSchema validator schema = Inr True
        \<and> (\<forall>v. zs_validate validator v schema = Inr (conforms schema v)))"



section \<open>The table of the specification\<close>

text \<open>
  Section 4.2 of the specification, row by row: the name of the type, its tag key,
  the constraint on the tag's value and the optional keys. Every row stands for an
  object schema that requires the tag key alone and admits no further property.
\<close>

definition of_type :: "string \<Rightarrow> jsval" where
  "of_type t = object [(''type'', JStr t)]"

definition spec_fragment :: "string \<Rightarrow> jsval \<Rightarrow> (string \<times> jsval) list \<Rightarrow> jsval" where
  "spec_fragment tag constraint optional =
     object [(''type'', JStr ''object''),
          (''required'', JArr [JStr tag]),
          (''properties'', object ((tag, constraint) # optional)),
          (''additionalProperties'', JBool False)]"

definition spec_table :: "(string \<times> jsval) list" where
  "spec_table =
     [(''Date'', spec_fragment ''$date'' (of_type ''string'') []),
      (''DBRef'', spec_fragment ''$ref'' (of_type ''string'') [(''$id'', object [])]),
      (''MaxKey'', spec_fragment ''$maxKey''
         (object [(''type'', JStr ''number''), (''minimum'', JNum 1), (''maximum'', JNum 1)]) []),
      (''MinKey'', spec_fragment ''$minKey''
         (object [(''type'', JStr ''number''), (''minimum'', JNum 1), (''maximum'', JNum 1)]) []),
      (''Long'', spec_fragment ''$numberLong'' (of_type ''string'') []),
      (''ObjectId'', spec_fragment ''$oid'' (of_type ''string'') []),
      (''Regex'', spec_fragment ''$regex'' (of_type ''string'')
         [(''$options'', of_type ''string'')]),
      (''Timestamp'', spec_fragment ''$timestamp''
         (object [(''type'', JStr ''object''),
               (''properties'', object [(''t'', of_type ''number''), (''i'', of_type ''number'')]),
               (''additionalProperties'', JBool False)]) []),
      (''Undefined'', spec_fragment ''$undefined'' (of_type ''boolean'') [])]"

section \<open>Notions of the claims\<close>


text \<open>A decoder of which nothing is known, for the examples that do not decode.\<close>

definition no_decoder :: "jsval \<Rightarrow> jsval result" where
  "no_decoder wire = Inl Unmodelled"

definition catalog_names :: "string list" where
  "catalog_names =
     [''Date'', ''DBRef'', ''MaxKey'', ''MinKey'', ''Long'', ''ObjectId'', ''Regex'',
      ''Timestamp'', ''Undefined'']"

text \<open>
  A pure structural schema is built of plain objects, arrays and primitive values, and
  a \<open>type\<close> in it is a primitive type name, an array of such names, a falsy value, or
  an object (a property that happens to be called \<open>type\<close>) that overrides neither
  \<open>toString\<close> nor \<open>valueOf\<close>.
\<close>

fun structural_type :: "jsval \<Rightarrow> bool" where
  "structural_type (JStr n) = (n = [] \<or> n \<in> set primitive_types)"
| "structural_type (JArr ts) =
     list_all (\<lambda>t. case t of JStr n \<Rightarrow> n \<in> set primitive_types | _ \<Rightarrow> False) ts"
| "structural_type (JObj c qs) =
     (map_of qs ''toString'' = None \<and> map_of qs ''valueOf'' = None)"
| "structural_type (JHost n) = False"
| "structural_type t = (\<not> truthy t)"

fun pure_structural :: "jsval \<Rightarrow> bool" where
  "pure_structural (JArr xs) = list_all pure_structural xs"
| "pure_structural (JObj c ps) =
     (c = Plain
      \<and> list_all (\<lambda>p. pure_structural (snd p)) ps
      \<and> (case map_of ps ''type'' of None \<Rightarrow> True | Some t \<Rightarrow> structural_type t))"
| "pure_structural (JHost n) = False"
| "pure_structural v = True"

text \<open>
  Two engines for the examples: one that follows the rules above, finds every other
  schema invalid and reports a single issue, and one that answers false without a
  report. And a serializer for the examples: it gives the empty text, and throws on
  an object that carries the tag of an object id without its bytes.
\<close>

definition rule_engine :: engine where
  "rule_engine =
     \<lparr> zs_validateSchema = (\<lambda>schema. Inr (described schema)),
       zs_validate =
         (\<lambda>v schema. if described schema then Inr (conforms schema v)
                      else Inl ''unsupported schema''),
       zs_getLastErrors =
         (\<lambda>v schema. if conforms schema v then JUndefined
                      else JArr [object [(''message'', JStr ''does not conform'')]]) \<rparr>"



text \<open>\<open>v.k1.k2...\<close>, for reading into the catalog.\<close>

fun path :: "jsval \<Rightarrow> string list \<Rightarrow> jsval result" where
  "path v [] = Inr v"
| "path v (k # ks) = (case get_prop v k of Inl e \<Rightarrow> Inl e | Inr w \<Rightarrow> path w ks)"

section \<open>Properties of the type predicates\<close>













section \<open>Properties of the catalog\<close>

lemma equals_one:
  "conforms (object [(''type'', JStr ''number''), (''minimum'', JNum 1), (''maximum'', JNum 1)]) v
     \<longleftrightarrow> v = JNum 1"
  by (cases v) (auto simp: object_def)

text \<open>
  Claim C6. The catalog is the table of the specification: for each type an object
  schema that requires exactly the tag key, constrains the tag's value as the row
  says, lists the optional keys of the row and sets \<open>additionalProperties\<close> to
  false. The constraint on \<open>$maxKey\<close> and \<open>$minKey\<close>, a number between 1 and 1,
  admits the number 1 and nothing else.
\<close>

theorem catalog_is_table:
  "ejsonSchemas = object spec_table
   \<and> (\<forall>v. conforms (object [(''type'', JStr ''number''), (''minimum'', JNum 1),
                              (''maximum'', JNum 1)]) v
          \<longleftrightarrow> v = JNum 1)"
proof -
  have "ejsonSchemas = object spec_table"
    by (simp add: ejsonSchemas_def spec_table_def spec_fragment_def of_type_def)
  then show ?thesis by (simp add: equals_one)
qed


section \<open>Properties of the JSON parser\<close>

text \<open>
  What a parser leaves behind is shorter than what it was given, so the counter of
  \<open>JSON_parse\<close> does not run out: on a text without a backslash the parser returns a
  value or throws a syntax error.
\<close>

lemma take_digits_rest:
  "take_digits cs = (ds, rest) \<Longrightarrow>
     length rest + length ds = length cs \<and> set rest \<subseteq> set cs"
  by (induction cs arbitrary: ds rest) (auto split: option.splits prod.splits)

lemma skip_ws_rest: "length (skip_ws cs) \<le> length cs \<and> set (skip_ws cs) \<subseteq> set cs"
  unfolding skip_ws_def by (auto simp: length_dropWhile_le dest: set_dropWhileD)

lemma parse_frac_rest:
  "parse_frac cs = Some (f, rest) \<Longrightarrow> length rest \<le> length cs \<and> set rest \<subseteq> set cs"
  unfolding parse_frac_def
  by (auto split: list.splits if_splits prod.splits dest!: take_digits_rest)

lemma parse_exp_rest:
  assumes "parse_exp cs = Some (f, rest)"
  shows "length rest \<le> length cs \<and> set rest \<subseteq> set cs"
proof (cases cs)
  case Nil
  then show ?thesis using assms by (simp add: parse_exp_def)
next
  case (Cons c r)
  show ?thesis
  proof (cases "c = CHR ''e'' \<or> c = CHR ''E''")
    case False
    then show ?thesis using assms Cons by (simp add: parse_exp_def)
  next
    case True
    define signed where
      "signed = (case r of s # r' \<Rightarrow> s = CHR ''-'' \<or> s = CHR ''+'' | [] \<Rightarrow> False)"
    define r1 where "r1 = (if signed then tl r else r)"
    have r1: "length r1 \<le> length r \<and> set r1 \<subseteq> set r"
      unfolding r1_def by (cases r) auto
    obtain es rest' where t: "take_digits r1 = (es, rest')"
      by (cases "take_digits r1")
    have "rest' = rest"
      using assms Cons True t unfolding parse_exp_def Let_def r1_def signed_def
      by (auto split: if_splits)
    then have "length rest \<le> length r1 \<and> set rest \<subseteq> set r1"
      using take_digits_rest [OF t] by auto
    then show ?thesis using r1 Cons by auto
  qed
qed

lemma parse_number_rest:
  assumes "parse_number cs = Some (q, rest)"
  shows "length rest < length cs \<and> set rest \<subseteq> set cs"
proof -
  define neg where "neg = (case cs of c # r \<Rightarrow> c = CHR ''-'' | [] \<Rightarrow> False)"
  define cs1 where "cs1 = (if neg then tl cs else cs)"
  have c1: "length cs1 \<le> length cs \<and> set cs1 \<subseteq> set cs"
    unfolding cs1_def by (cases cs) auto
  obtain ds cs2 where t: "take_digits cs1 = (ds, cs2)"
    by (cases "take_digits cs1")
  have u: "parse_number cs =
      (if ds = [] \<or> (1 < length ds \<and> hd ds = 0) then None
       else case parse_frac cs2 of
              None \<Rightarrow> None
            | Some (f, cs3) \<Rightarrow>
                (case parse_exp cs3 of
                   None \<Rightarrow> None
                 | Some (e, cs4) \<Rightarrow>
                     Some ((if neg then - 1 else 1) * (of_nat (digits_to_nat ds) + f) * e, cs4)))"
    unfolding parse_number_def Let_def neg_def [symmetric] cs1_def [symmetric] t by simp
  have ds: "ds \<noteq> []" using assms u by (auto split: if_splits)
  obtain f cs3 where f: "parse_frac cs2 = Some (f, cs3)"
    using assms u ds by (cases "parse_frac cs2") (auto split: if_splits)
  obtain e cs4 where e: "parse_exp cs3 = Some (e, cs4)"
    using assms u ds f by (cases "parse_exp cs3") (auto split: if_splits)
  have "cs4 = rest" using assms u ds f e by (auto split: if_splits)
  moreover have "length cs2 < length cs1 \<and> set cs2 \<subseteq> set cs1"
    using take_digits_rest [OF t] ds by (cases ds) auto
  moreover note parse_frac_rest [OF f] parse_exp_rest [OF e] c1
  ultimately show ?thesis by auto
qed

lemma parse_chars_rest:
  "parse_chars cs = Inr (s, rest) \<Longrightarrow> length rest < length cs \<and> set rest \<subseteq> set cs"
proof (induction cs arbitrary: s rest rule: parse_chars.induct)
  case 1
  then show ?case by simp
next
  case (2 c cs)
  show ?case
  proof (cases "c = CHR 0x22")
    case True
    then show ?thesis using "2.prems" by auto
  next
    case q: False
    show ?thesis
    proof (cases "c = CHR 0x5C")
      case False
      then obtain s' where "parse_chars cs = Inr (s', rest)"
        using "2.prems" q by (auto split: if_splits sum.splits)
      then show ?thesis using "2.IH"(3) [OF q False] q False "2.prems"
        by (auto split: if_splits)
    next
      case True
      then obtain e r where cs: "cs = e # r"
        using "2.prems" q by (cases cs) auto
      show ?thesis
      proof (cases "e = CHR ''u''")
        case u: True
        then obtain ch s' where "unicode_escape (take 4 r) = Inr ch"
          and p: "parse_chars (drop 4 r) = Inr (s', rest)"
          using "2.prems" q True cs by (auto split: sum.splits)
        then have "length rest < length (drop 4 r) \<and> set rest \<subseteq> set (drop 4 r)"
          using "2.IH"(1) [OF q True cs u] by auto
        then show ?thesis using cs set_drop_subset [of 4 r] by auto
      next
        case False
        then obtain ch s' where se: "simple_escape e = Some ch"
          and p: "parse_chars r = Inr (s', rest)"
          using "2.prems" q True cs by (auto split: sum.splits option.splits)
        then have "length rest < length r \<and> set rest \<subseteq> set r"
          using "2.IH"(2) [OF q True cs False se] by auto
        then show ?thesis using cs by auto
      qed
    qed
  qed
qed

lemma parse_chars_described:
  "CHR 0x5C \<notin> set cs \<Longrightarrow> parse_chars cs = Inl e \<Longrightarrow> e = SyntaxError"
  by (induction cs arbitrary: e) (auto split: sum.splits if_splits)

lemma skip_ws_cons:
  assumes "skip_ws xs = d # r"
  shows "length r < length xs \<and> set r \<subseteq> set xs \<and> length (d # r) \<le> length xs
         \<and> set (d # r) \<subseteq> set xs"
  using skip_ws_rest [of xs] unfolding assms by auto

lemma parse_value_Suc_rest:
  assumes pv: "parse_value (Suc n) cs = Inr (v, rest)"
    and elems: "\<And>d r'. parse_elements n (d # r') [] = Inr (v, rest) \<Longrightarrow>
                  length rest < length (d # r') \<and> set rest \<subseteq> set (d # r')"
    and membs: "\<And>d r'. parse_members n (d # r') [] = Inr (v, rest) \<Longrightarrow>
                  length rest < length (d # r') \<and> set rest \<subseteq> set (d # r')"
  shows "length rest < length cs \<and> set rest \<subseteq> set cs"
proof (cases cs)
  case Nil
  then show ?thesis using pv by simp
next
  case (Cons c r)
  consider (arr) "c = CHR ''[''" | (ob) "c \<noteq> CHR ''[''" "c = CHR ''{''"
    | (str) "c \<noteq> CHR ''[''" "c \<noteq> CHR ''{''" "c = CHR 0x22"
    | (lit) "c \<noteq> CHR ''[''" "c \<noteq> CHR ''{''" "c \<noteq> CHR 0x22"
    by blast
  then show ?thesis
  proof cases
    case arr
    then obtain d r' where s: "skip_ws r = d # r'"
      using pv Cons by (cases "skip_ws r") auto
    show ?thesis
    proof (cases "d = CHR '']''")
      case True
      then have "rest = r'" using pv Cons arr s by simp
      then show ?thesis using skip_ws_cons [OF s] Cons by auto
    next
      case False
      then have "parse_elements n (d # r') [] = Inr (v, rest)"
        using pv Cons arr s by simp
      then show ?thesis using elems skip_ws_cons [OF s] Cons by fastforce
    qed
  next
    case ob
    then obtain d r' where s: "skip_ws r = d # r'"
      using pv Cons by (cases "skip_ws r") auto
    show ?thesis
    proof (cases "d = CHR ''}''")
      case True
      then have "rest = r'" using pv Cons ob s by simp
      then show ?thesis using skip_ws_cons [OF s] Cons by auto
    next
      case False
      then have "parse_members n (d # r') [] = Inr (v, rest)"
        using pv Cons ob s by simp
      then show ?thesis using membs skip_ws_cons [OF s] Cons by fastforce
    qed
  next
    case str
    then obtain s where "parse_chars r = Inr (s, rest)"
      using pv Cons by (auto split: sum.splits)
    then show ?thesis using parse_chars_rest Cons by fastforce
  next
    case lit
    have d: "0 < k \<Longrightarrow> length (drop k cs) < length cs \<and> set (drop k cs) \<subseteq> set cs" for k
      using Cons set_drop_subset [of k cs] by auto
    consider (t) "rest = drop 4 cs" | (f) "rest = drop 5 cs"
      | (n) q where "parse_number cs = Some (q, rest)"
      using pv Cons lit by (auto split: if_splits option.splits)
    then show ?thesis
    proof cases
      case t
      then show ?thesis using d [of 4] by simp
    next
      case f
      then show ?thesis using d [of 5] by simp
    next
      case n
      then show ?thesis by (rule parse_number_rest)
    qed
  qed
qed

lemma parse_elements_Suc_rest:
  assumes pe: "parse_elements (Suc n) cs acc = Inr (v, rest)"
    and val: "\<And>w rest'. parse_value n cs = Inr (w, rest') \<Longrightarrow>
                  length rest' < length cs \<and> set rest' \<subseteq> set cs"
    and elems: "\<And>cs' acc'. parse_elements n cs' acc' = Inr (v, rest) \<Longrightarrow>
                  length rest < length cs' \<and> set rest \<subseteq> set cs'"
  shows "length rest < length cs \<and> set rest \<subseteq> set cs"
proof -
  obtain w rest' where w: "parse_value n cs = Inr (w, rest')"
    using pe by (auto split: sum.splits)
  obtain d r where s: "skip_ws rest' = d # r"
    using pe w by (cases "skip_ws rest'") auto
  have r: "length r < length cs \<and> set r \<subseteq> set cs"
    using val [OF w] skip_ws_cons [OF s] by auto
  show ?thesis
  proof (cases "d = CHR '']''")
    case True
    then have "rest = r" using pe w s by simp
    then show ?thesis using r by simp
  next
    case False
    then have "parse_elements n (skip_ws r) (acc @ [w]) = Inr (v, rest)"
      using pe w s by (auto split: if_splits)
    then have "length rest < length (skip_ws r) \<and> set rest \<subseteq> set (skip_ws r)"
      by (rule elems)
    then show ?thesis using r skip_ws_rest [of r] by auto
  qed
qed

lemma parse_members_Suc_rest:
  assumes pm: "parse_members (Suc n) cs acc = Inr (v, rest)"
    and val: "\<And>cs' w rest'. parse_value n cs' = Inr (w, rest') \<Longrightarrow>
                  length rest' < length cs' \<and> set rest' \<subseteq> set cs'"
    and membs: "\<And>cs' acc'. parse_members n cs' acc' = Inr (v, rest) \<Longrightarrow>
                  length rest < length cs' \<and> set rest \<subseteq> set cs'"
  shows "length rest < length cs \<and> set rest \<subseteq> set cs"
proof -
  obtain q r where cs: "cs = q # r" and q: "q = CHR 0x22"
    using pm by (cases cs) (auto split: if_splits)
  obtain k rest0 where k: "parse_chars r = Inr (k, rest0)"
    using pm cs q by (auto split: sum.splits)
  obtain colon r1 where s0: "skip_ws rest0 = colon # r1" and colon: "colon = CHR '':''"
    using pm cs q k by (cases "skip_ws rest0") (auto split: if_splits)
  obtain w rest' where w: "parse_value n (skip_ws r1) = Inr (w, rest')"
    using pm cs q k s0 colon by (auto split: sum.splits)
  obtain d r2 where s: "skip_ws rest' = d # r2"
    using pm cs q k s0 colon w by (cases "skip_ws rest'") auto
  have "length r1 < length cs \<and> set r1 \<subseteq> set cs"
    using parse_chars_rest [OF k] skip_ws_cons [OF s0] cs by auto
  then have "length rest' < length cs \<and> set rest' \<subseteq> set cs"
    using val [OF w] skip_ws_rest [of r1] by auto
  then have r2: "length r2 < length cs \<and> set r2 \<subseteq> set cs"
    using skip_ws_cons [OF s] by auto
  show ?thesis
  proof (cases "d = CHR ''}''")
    case True
    then have "rest = r2" using pm cs q k s0 colon w s by simp
    then show ?thesis using r2 by simp
  next
    case False
    then have "parse_members n (skip_ws r2) (set_prop acc k w) = Inr (v, rest)"
      using pm cs q k s0 colon w s by (auto split: if_splits)
    then have "length rest < length (skip_ws r2) \<and> set rest \<subseteq> set (skip_ws r2)"
      by (rule membs)
    then show ?thesis using r2 skip_ws_rest [of r2] by auto
  qed
qed

lemma parse_rest_all:
  "(\<forall>cs v rest. parse_value n cs = Inr (v, rest) \<longrightarrow>
       length rest < length cs \<and> set rest \<subseteq> set cs)
   \<and> (\<forall>cs acc v rest. parse_elements n cs acc = Inr (v, rest) \<longrightarrow>
       length rest < length cs \<and> set rest \<subseteq> set cs)
   \<and> (\<forall>cs acc v rest. parse_members n cs acc = Inr (v, rest) \<longrightarrow>
       length rest < length cs \<and> set rest \<subseteq> set cs)"
proof (induction n)
  case 0
  show ?case by simp
next
  case (Suc n)
  have "length rest < length cs \<and> set rest \<subseteq> set cs"
    if "parse_value (Suc n) cs = Inr (v, rest)" for cs v rest
    using that by (rule parse_value_Suc_rest) (use Suc in blast)+
  moreover have "length rest < length cs \<and> set rest \<subseteq> set cs"
    if "parse_elements (Suc n) cs acc = Inr (v, rest)" for cs acc v rest
    using that by (rule parse_elements_Suc_rest) (use Suc in blast)+
  moreover have "length rest < length cs \<and> set rest \<subseteq> set cs"
    if "parse_members (Suc n) cs acc = Inr (v, rest)" for cs acc v rest
    using that by (rule parse_members_Suc_rest) (use Suc in blast)+
  ultimately show ?case by blast
qed

lemma parse_value_rest:
  "parse_value n cs = Inr (v, rest) \<Longrightarrow> length rest < length cs \<and> set rest \<subseteq> set cs"
  using parse_rest_all [of n] by blast

lemma parse_value_Suc_described:
  assumes nb: "CHR 0x5C \<notin> set cs" and fuel: "2 * length cs < Suc n"
    and elems: "\<And>cs'. CHR 0x5C \<notin> set cs' \<Longrightarrow> 2 * length cs' + 1 < n \<Longrightarrow>
                  (\<forall>e. parse_elements n cs' [] = Inl e \<longrightarrow> e = SyntaxError)"
    and membs: "\<And>cs'. CHR 0x5C \<notin> set cs' \<Longrightarrow> 2 * length cs' + 1 < n \<Longrightarrow>
                  (\<forall>e. parse_members n cs' [] = Inl e \<longrightarrow> e = SyntaxError)"
  shows "(\<forall>e. parse_value (Suc n) cs = Inl e \<longrightarrow> e = SyntaxError)"
proof (cases cs)
  case Nil
  then show ?thesis by simp
next
  case (Cons c r)
  have inner: "CHR 0x5C \<notin> set (d # r') \<and> 2 * length (d # r') + 1 < n"
    if "skip_ws r = d # r'" for d r'
    using skip_ws_cons [OF that] nb fuel Cons by auto
  consider (arr) "c = CHR ''[''" | (ob) "c \<noteq> CHR ''[''" "c = CHR ''{''"
    | (str) "c \<noteq> CHR ''[''" "c \<noteq> CHR ''{''" "c = CHR 0x22"
    | (lit) "c \<noteq> CHR ''[''" "c \<noteq> CHR ''{''" "c \<noteq> CHR 0x22"
    by blast
  then show ?thesis
  proof cases
    case arr
    show ?thesis
    proof (cases "skip_ws r")
      case Nil
      then show ?thesis using Cons arr by simp
    next
      case (Cons d r')
      then show ?thesis
        using \<open>cs = c # r\<close> arr elems [of "d # r'"] inner [OF Cons] by simp
    qed
  next
    case ob
    show ?thesis
    proof (cases "skip_ws r")
      case Nil
      then show ?thesis using Cons ob by simp
    next
      case (Cons d r')
      then show ?thesis
        using \<open>cs = c # r\<close> ob membs [of "d # r'"] inner [OF Cons] by simp
    qed
  next
    case str
    have "(\<forall>e. parse_chars r = Inl e \<longrightarrow> e = SyntaxError)"
      using nb Cons parse_chars_described [of r] by auto
    then show ?thesis using Cons str by (auto split: sum.splits)
  next
    case lit
    then show ?thesis using Cons by (auto split: option.splits)
  qed
qed

lemma parse_elements_Suc_described:
  assumes nb: "CHR 0x5C \<notin> set cs" and fuel: "2 * length cs + 1 < Suc n"
    and val: "\<And>cs'. CHR 0x5C \<notin> set cs' \<Longrightarrow> 2 * length cs' < n \<Longrightarrow>
                  (\<forall>e. parse_value n cs' = Inl e \<longrightarrow> e = SyntaxError)"
    and elems: "\<And>cs' acc'. CHR 0x5C \<notin> set cs' \<Longrightarrow> 2 * length cs' + 1 < n \<Longrightarrow>
                  (\<forall>e. parse_elements n cs' acc' = Inl e \<longrightarrow> e = SyntaxError)"
  shows "(\<forall>e. parse_elements (Suc n) cs acc = Inl e \<longrightarrow> e = SyntaxError)"
proof (cases "parse_value n cs")
  case (Inl e)
  then have "e = SyntaxError" using val [of cs] nb fuel by auto
  then show ?thesis using Inl by simp
next
  case (Inr b)
  obtain w rest' where b: "b = (w, rest')" by (cases b)
  have rest': "length rest' < length cs \<and> set rest' \<subseteq> set cs"
    using Inr b parse_value_rest by blast
  show ?thesis
  proof (cases "skip_ws rest'")
    case Nil
    then show ?thesis using Inr b by simp
  next
    case (Cons d r)
    have "CHR 0x5C \<notin> set (skip_ws r) \<and> 2 * length (skip_ws r) + 1 < n"
      using skip_ws_cons [OF Cons] skip_ws_rest [of r] rest' nb fuel by auto
    then have "(\<forall>e. parse_elements n (skip_ws r) (acc @ [w]) = Inl e \<longrightarrow> e = SyntaxError)"
      using elems by blast
    then show ?thesis using Inr b Cons by simp
  qed
qed

lemma parse_members_Suc_described:
  assumes nb: "CHR 0x5C \<notin> set cs" and fuel: "2 * length cs + 1 < Suc n"
    and val: "\<And>cs'. CHR 0x5C \<notin> set cs' \<Longrightarrow> 2 * length cs' < n \<Longrightarrow>
                  (\<forall>e. parse_value n cs' = Inl e \<longrightarrow> e = SyntaxError)"
    and membs: "\<And>cs' acc'. CHR 0x5C \<notin> set cs' \<Longrightarrow> 2 * length cs' + 1 < n \<Longrightarrow>
                  (\<forall>e. parse_members n cs' acc' = Inl e \<longrightarrow> e = SyntaxError)"
  shows "(\<forall>e. parse_members (Suc n) cs acc = Inl e \<longrightarrow> e = SyntaxError)"
proof (cases cs)
  case Nil
  then show ?thesis by simp
next
  case (Cons q r)
  show ?thesis
  proof (cases "q = CHR 0x22")
    case False
    then show ?thesis using Cons by simp
  next
    case True
    show ?thesis
    proof (cases "parse_chars r")
      case (Inl e)
      then have "e = SyntaxError" using parse_chars_described [of r] nb Cons by auto
      then show ?thesis using Cons True Inl by simp
    next
      case (Inr b)
      obtain k rest0 where b: "b = (k, rest0)" by (cases b)
      have rest0: "length rest0 < length r \<and> set rest0 \<subseteq> set r"
        using Inr b parse_chars_rest by blast
      show ?thesis
      proof (cases "skip_ws rest0")
        case Nil
        then show ?thesis using Cons True Inr b by simp
      next
        case c: (Cons colon r1)
        have r1: "length r1 < length r \<and> set r1 \<subseteq> set r"
          using skip_ws_cons [OF c] rest0 by auto
        show ?thesis
        proof (cases "colon = CHR '':''")
          case False
          then show ?thesis using Cons True Inr b c by simp
        next
          case colon: True
          have s1: "CHR 0x5C \<notin> set (skip_ws r1) \<and> 2 * length (skip_ws r1) < n
                    \<and> length (skip_ws r1) < length r"
            using skip_ws_rest [of r1] r1 nb fuel Cons by auto
          show ?thesis
          proof (cases "parse_value n (skip_ws r1)")
            case (Inl e)
            then have "e = SyntaxError" using val [of "skip_ws r1"] s1 by auto
            then show ?thesis using Cons True Inr b c colon Inl by simp
          next
            case v: (Inr b')
            obtain w rest' where b': "b' = (w, rest')" by (cases b')
            have rest': "length rest' < length r \<and> set rest' \<subseteq> set r"
              using v b' parse_value_rest [of n "skip_ws r1" w rest'] s1 skip_ws_rest [of r1] r1
              by auto
            show ?thesis
            proof (cases "skip_ws rest'")
              case Nil
              then show ?thesis using Cons True Inr b c colon v b' by simp
            next
              case d: (Cons d r2)
              have "CHR 0x5C \<notin> set (skip_ws r2) \<and> 2 * length (skip_ws r2) + 1 < n"
                using skip_ws_cons [OF d] skip_ws_rest [of r2] rest' nb fuel Cons by auto
              then have "(\<forall>e. parse_members n (skip_ws r2) (set_prop acc k w) = Inl e \<longrightarrow> e = SyntaxError)"
                using membs by blast
              then show ?thesis using Cons True Inr b c colon v b' d by simp
            qed
          qed
        qed
      qed
    qed
  qed
qed

lemma parse_described_all:
  "(\<forall>cs. CHR 0x5C \<notin> set cs \<longrightarrow> 2 * length cs < n \<longrightarrow> (\<forall>e. parse_value n cs = Inl e \<longrightarrow> e = SyntaxError))
   \<and> (\<forall>cs acc. CHR 0x5C \<notin> set cs \<longrightarrow> 2 * length cs + 1 < n \<longrightarrow>
         (\<forall>e. parse_elements n cs acc = Inl e \<longrightarrow> e = SyntaxError))
   \<and> (\<forall>cs acc. CHR 0x5C \<notin> set cs \<longrightarrow> 2 * length cs + 1 < n \<longrightarrow>
         (\<forall>e. parse_members n cs acc = Inl e \<longrightarrow> e = SyntaxError))"
proof (induction n)
  case 0
  show ?case by simp
next
  case (Suc n)
  have "(\<forall>e. parse_value (Suc n) cs = Inl e \<longrightarrow> e = SyntaxError)"
    if "CHR 0x5C \<notin> set cs" and "2 * length cs < Suc n" for cs
    using that by (rule parse_value_Suc_described) (use Suc in blast)+
  moreover have "(\<forall>e. parse_elements (Suc n) cs acc = Inl e \<longrightarrow> e = SyntaxError)"
    if "CHR 0x5C \<notin> set cs" and "2 * length cs + 1 < Suc n" for cs acc
    using that by (rule parse_elements_Suc_described) (use Suc in blast)+
  moreover have "(\<forall>e. parse_members (Suc n) cs acc = Inl e \<longrightarrow> e = SyntaxError)"
    if "CHR 0x5C \<notin> set cs" and "2 * length cs + 1 < Suc n" for cs acc
    using that by (rule parse_members_Suc_described) (use Suc in blast)+
  ultimately show ?case by blast
qed

lemma JSON_parse_described:
  assumes "CHR 0x5C \<notin> set s"
  shows "(\<forall>e. JSON_parse s = Inl e \<longrightarrow> e = SyntaxError)"
proof -
  have "CHR 0x5C \<notin> set (skip_ws s)" and "2 * length (skip_ws s) < Suc (2 * length s)"
    using assms skip_ws_rest [of s] by auto
  then have "(\<forall>e. parse_value (Suc (2 * length s)) (skip_ws s) = Inl e \<longrightarrow> e = SyntaxError)"
    using parse_described_all [of "Suc (2 * length s)"] by blast
  moreover define r where "r = parse_value (Suc (2 * length s)) (skip_ws s)"
  ultimately have "\<forall>e. r = Inl e \<longrightarrow> e = SyntaxError" by simp
  then have "\<forall>e. (case r of Inl err \<Rightarrow> Inl err
              | Inr (v, rest) \<Rightarrow> if skip_ws rest = [] then Inr v else Inl SyntaxError)
            = Inl e \<longrightarrow> e = SyntaxError"
    by (cases r) (auto split: prod.splits if_splits)
  then show ?thesis
    unfolding JSON_parse_def r_def .
qed

section \<open>Properties of the coercion engine\<close>

declare coerce.simps [simp del]

lemma coerce_falsy: "\<not> truthy schema \<Longrightarrow> coerce deserialize v schema = Inr v"
  by (subst coerce.simps) simp



lemma coerce_string:
  "truthy schema \<Longrightarrow>
   coerce deserialize (JStr str) schema =
     (case get_prop schema ''type'' of
        Inl e \<Rightarrow> Inl e
      | Inr schemaType \<Rightarrow>
          if truthy schemaType then
            (if schemaType = JStr ''number'' \<or> schemaType = JStr ''integer''
                \<or> schemaType = JStr ''boolean''
             then JSON_parse str
             else if schemaType = JStr ''ObjectId''
             then deserialize (object [(''$oid'', JStr str)])
             else if schemaType = JStr ''Date''
             then deserialize (object [(''$date'', JStr str)])
             else Inr (JStr str))
          else Inr (JStr str))"
  by (subst coerce.simps) simp


lemma fixed_not_inherited:
  "k \<in> set fixed_names \<Longrightarrow> k \<notin> set object_prototype_functions \<and> k \<noteq> ''__proto__''"
  unfolding fixed_names_def object_prototype_functions_def by auto

lemma get_prop_fixed:
  assumes "truthy schema" and "k \<in> set fixed_names"
  shows "\<exists>t. get_prop schema k = Inr t"
proof (cases schema)
  case (JObj c ps)
  show ?thesis
  proof (cases "map_of ps k")
    case None
    then show ?thesis
      using JObj fixed_not_inherited [OF assms(2)] assms(2) by simp
  next
    case (Some w)
    then show ?thesis using JObj by simp
  qed
qed (use assms in simp_all)

text \<open>
  Claim C7. Without a schema the value comes back as it is, whatever its shape:
  \<open>coerce v undefined\<close> is \<open>v\<close>, and so is \<open>coerce v schema\<close> for every falsy
  \<open>schema\<close>; the test of the schema comes before the tests of the shape.
\<close>

theorem coerce_identity_without_schema:
  "coerce deserialize v JUndefined = Inr v
   \<and> (\<not> truthy schema \<longrightarrow> coerce deserialize v schema = Inr v)"
  by (simp add: coerce_falsy)

theorem coerce_identity_without_schema_witness:
  "\<not> truthy (JStr '''')
   \<and> coerce (\<lambda>w. Inl Unmodelled) (JArr [JStr ''1'']) (JStr '''') = Inr (JArr [JStr ''1''])"
  using coerce_identity_without_schema [of "\<lambda>w. Inl Unmodelled" "JArr [JStr ''1'']" "JStr ''''"]
  by simp

lemma sequence_map_Inr: "sequence (map Inr vs) = Inr vs"
  by (induction vs) simp_all

lemma sequence_Inr: "sequence rs = Inr vs \<longleftrightarrow> rs = map Inr vs"
proof
  show "sequence rs = Inr vs \<Longrightarrow> rs = map Inr vs"
    by (induction rs arbitrary: vs) (auto split: sum.splits)
  show "rs = map Inr vs \<Longrightarrow> sequence rs = Inr vs"
    by (simp add: sequence_map_Inr)
qed

lemma map_array_Inr:
  "map_array f xs = Inr w \<longleftrightarrow> (\<exists>ys. w = JArr ys \<and> map f xs = map Inr ys)"
  unfolding map_array_def
  by (cases "sequence (map f xs)") (auto simp: sequence_Inr sequence_map_Inr)

lemma mapValues_Inr:
  "mapValues f ps = Inr w \<longleftrightarrow>
     (\<exists>qs. w = JObj Plain qs
        \<and> map (\<lambda>p. case f (snd p) (fst p) of Inl e \<Rightarrow> Inl e | Inr u \<Rightarrow> Inr (fst p, u)) ps
            = map Inr qs)"
  unfolding mapValues_def
  by (cases "sequence (map (\<lambda>p. case f (snd p) (fst p) of Inl e \<Rightarrow> Inl e
                                 | Inr u \<Rightarrow> Inr (fst p, u)) ps)")
     (auto simp: sequence_Inr sequence_map_Inr)








lemma JSON_parse_42: "JSON_parse ''42'' = Inr (JNum 42)"
  by (simp add: JSON_parse_def skip_ws_def is_ws_def parse_number_def digit_val_def
        digits_to_nat_def parse_frac_def parse_exp_def eval_nat_numeral)

lemma JSON_parse_true: "JSON_parse ''true'' = Inr (JBool True)"
  by (simp add: JSON_parse_def skip_ws_def is_ws_def eval_nat_numeral)






text \<open>
  Claim C2, as the code has it. For a string under a truthy schema, \<open>coerce\<close> reads
  the \<open>type\<close> of the schema: for \<open>number\<close>, \<open>integer\<close> and \<open>boolean\<close> the result
  is that of \<open>JSON.parse\<close> on the string, its syntax error included, whatever the kind
  of the parsed value; for \<open>ObjectId\<close> and \<open>Date\<close> it is that of the decoder on the
  wire form; for any other type, or none, the string comes back as it is.
\<close>

theorem coerce_string_leaf:
  assumes "truthy schema"
  shows "\<exists>t. get_prop schema ''type'' = Inr t
    \<and> coerce deserialize (JStr s) schema =
        (if t = JStr ''number'' \<or> t = JStr ''integer'' \<or> t = JStr ''boolean''
         then JSON_parse s
         else if t = JStr ''ObjectId'' then deserialize (object [(''$oid'', JStr s)])
         else if t = JStr ''Date'' then deserialize (object [(''$date'', JStr s)])
         else Inr (JStr s))"
proof -
  obtain t where t: "get_prop schema ''type'' = Inr t"
    using get_prop_fixed [OF assms, of "''type''"] by (auto simp: fixed_names_def)
  have "coerce deserialize (JStr s) schema =
        (if t = JStr ''number'' \<or> t = JStr ''integer'' \<or> t = JStr ''boolean''
         then JSON_parse s
         else if t = JStr ''ObjectId'' then deserialize (object [(''$oid'', JStr s)])
         else if t = JStr ''Date'' then deserialize (object [(''$date'', JStr s)])
         else Inr (JStr s))"
    unfolding coerce_string [OF assms] t by auto
  then show ?thesis using t by blast
qed


theorem coerce_string_leaf_witness:
  "truthy (object [(''type'', JStr ''integer'')])
   \<and> coerce no_decoder (JStr ''42'') (object [(''type'', JStr ''integer'')]) = Inr (JNum 42)"
proof -
  have h: "truthy (object [(''type'', JStr ''integer'')])" by (simp add: object_def)
  obtain t where t: "get_prop (object [(''type'', JStr ''integer'')]) ''type'' = Inr t"
    and c: "coerce no_decoder (JStr ''42'') (object [(''type'', JStr ''integer'')]) =
        (if t = JStr ''number'' \<or> t = JStr ''integer'' \<or> t = JStr ''boolean''
         then JSON_parse ''42''
         else if t = JStr ''ObjectId'' then no_decoder (object [(''$oid'', JStr ''42'')])
         else if t = JStr ''Date'' then no_decoder (object [(''$date'', JStr ''42'')])
         else Inr (JStr ''42''))"
    using coerce_string_leaf [OF h, of no_decoder "''42''"] by blast
  have "t = JStr ''integer''" using t by (simp add: object_def)
  then show ?thesis using c h by (simp add: JSON_parse_42)
qed


text \<open>
  Claim C2, as it is written, fails where the string is valid JSON of another kind
  than the declared one: \<open>true\<close> under the type \<open>number\<close> is not rejected, it
  becomes the boolean.
\<close>

theorem coerce_number_true:
  "coerce no_decoder (JStr ''true'') (object [(''type'', JStr ''number'')]) = Inr (JBool True)"
  by (simp add: object_def coerce_string JSON_parse_true)


section \<open>Properties of the schema rewriter\<close>

text \<open>
  When the rewriter does not return, it throws the type error of a key conversion, or
  the schema has left what is described here.
\<close>

lemma sequence_error:
  "sequence rs = Inl e \<Longrightarrow> Inl e \<in> set rs"
  by (induction rs) (auto split: sum.splits)

lemma get_prop_error:
  "get_prop v k = Inl e \<Longrightarrow> e = Unmodelled \<or> (e = TypeError \<and> (v = JUndefined \<or> v = JNull))"
  by (cases v) (auto split: option.splits if_splits)

lemma to_property_key_error:
  "to_property_key v = Inl e \<Longrightarrow> e = Unmodelled \<or> e = TypeError"
proof (induction v arbitrary: e rule: to_property_key.induct)
  case (5 xs)
  let ?f = "\<lambda>x. if x = JNull \<or> x = JUndefined then Inr (Spelled []) else to_property_key x"
  have "sequence (map ?f xs) = Inl e"
    using "5.prems" by (cases "sequence (map ?f xs)") simp_all
  then have "Inl e \<in> set (map ?f xs)"
    by (rule sequence_error)
  then obtain x where x: "x \<in> set xs" and fx: "?f x = Inl e"
    by auto
  then have "x \<noteq> JNull \<and> x \<noteq> JUndefined" and "to_property_key x = Inl e"
    by (simp_all split: if_splits)
  then show ?case using "5.IH" [OF x] by simp
next
  case (6 c ps)
  then show ?case by (simp split: if_splits option.splits)
qed simp_all

lemma catalog_is_object: "\<exists>ps. ejsonSchemas = JObj Plain ps"
  by (simp add: ejsonSchemas_def object_def)

lemma schemaReplacement_error:
  assumes "schemaReplacement (JObj c ps) = Inl e"
  shows "e = Unmodelled \<or> e = TypeError"
proof (cases "get_prop (JObj c ps) ''type''")
  case (Inl e')
  then have "e' = e" using assms by (simp add: schemaReplacement_def)
  then show ?thesis using Inl get_prop_error [of "JObj c ps" "''type''" e] by simp
next
  case (Inr t)
  show ?thesis
  proof (cases "truthy t")
    case False
    then show ?thesis using assms Inr by (simp add: schemaReplacement_def)
  next
    case True
    show ?thesis
    proof (cases "to_property_key t")
      case (Inl e')
      then have "e' = e" using assms Inr True by (simp add: schemaReplacement_def)
      then show ?thesis using Inl to_property_key_error by blast
    next
      case k: (Inr key)
      show ?thesis
      proof (cases key)
        case (Spelled k)
        then have "get_prop ejsonSchemas k = Inl e"
          using assms Inr True k by (simp add: schemaReplacement_def)
        then show ?thesis
          using get_prop_error [of ejsonSchemas k e] catalog_is_object by auto
      next
        case Unspelled
        then show ?thesis using assms Inr True k by (simp add: schemaReplacement_def)
      qed
    qed
  qed
qed

lemma toJSONSchema_error:
  "toJSONSchema schema = Inl e \<Longrightarrow> e = Unmodelled \<or> e = TypeError"
proof (induction schema arbitrary: e rule: toJSONSchema.induct)
  case (1 xs)
  then have "Inl e \<in> set (map toJSONSchema xs)"
    by (auto simp: map_array_def split: sum.splits dest: sequence_error)
  then obtain x where "x \<in> set xs" and "toJSONSchema x = Inl e"
    by auto
  then show ?case by (rule "1.IH")
next
  case (2 c ps)
  show ?case
  proof (cases "schemaReplacement (JObj c ps)")
    case (Inl e')
    then show ?thesis using "2.prems" schemaReplacement_error by auto
  next
    case (Inr r)
    then have nt: "\<not> truthy r" and m: "mapValues (\<lambda>v k. toJSONSchema v) ps = Inl e"
      using "2.prems" by (auto split: if_splits)
    then have "Inl e \<in> set (map (\<lambda>p. case toJSONSchema (snd p) of Inl e \<Rightarrow> Inl e
                                      | Inr w \<Rightarrow> Inr (fst p, w)) ps)"
      by (auto simp: mapValues_def split: sum.splits dest: sequence_error)
    then obtain p where p: "p \<in> set ps" and "toJSONSchema (snd p) = Inl e"
      by (auto split: sum.splits)
    moreover have "(fst p, snd p) \<in> set ps" using p by simp
    ultimately show ?thesis using "2.IH" [OF Inr nt] by blast
  qed
qed simp_all

lemma catalog_miss:
  "k \<notin> set catalog_names \<Longrightarrow> k \<notin> set object_prototype_functions \<Longrightarrow> k \<noteq> ''__proto__''
   \<Longrightarrow> get_prop ejsonSchemas k = Inr JUndefined"
  by (simp add: ejsonSchemas_def object_def catalog_names_def)

lemma catalog_hit:
  "k \<in> set catalog_names \<Longrightarrow> \<exists>ps. get_prop ejsonSchemas k = Inr (JObj Plain ps)"
  unfolding catalog_names_def by (auto simp: ejsonSchemas_def object_def)

lemma primitive_not_catalog:
  "n \<in> set primitive_types \<Longrightarrow>
     n @ r \<notin> set catalog_names \<and> n @ r \<notin> set object_prototype_functions \<and> n @ r \<noteq> ''__proto__''"
  unfolding primitive_types_def catalog_names_def object_prototype_functions_def by auto

lemma primitive_lookup:
  "n \<in> set primitive_types \<Longrightarrow> get_prop ejsonSchemas (n @ r) = Inr JUndefined"
  using primitive_not_catalog [of n r] by (simp add: catalog_miss)

lemma texts_Spelled: "texts (map Spelled ns) = Some ns"
  by (induction ns) simp_all

lemma join_names:
  "list_all (\<lambda>t. case t of JStr n \<Rightarrow> n \<in> set primitive_types | _ \<Rightarrow> False) ts \<Longrightarrow>
   \<exists>ns. sequence (map (\<lambda>x. if x = JNull \<or> x = JUndefined then Inr (Spelled [])
                             else to_property_key x) ts)
           = Inr (map Spelled ns)
        \<and> list_all (\<lambda>n. n \<in> set primitive_types) ns"
proof (induction ts)
  case Nil
  then show ?case by simp
next
  case (Cons t ts)
  then obtain n where t: "t = JStr n" and n: "n \<in> set primitive_types"
    by (cases t) auto
  from Cons obtain ns where
    "sequence (map (\<lambda>x. if x = JNull \<or> x = JUndefined then Inr (Spelled [])
                        else to_property_key x) ts)
       = Inr (map Spelled ns)" and "list_all (\<lambda>n. n \<in> set primitive_types) ns"
    by auto
  then have "sequence (map (\<lambda>x. if x = JNull \<or> x = JUndefined then Inr (Spelled [])
                              else to_property_key x) (t # ts))
       = Inr (map Spelled (n # ns)) \<and> list_all (\<lambda>n. n \<in> set primitive_types) (n # ns)"
    using t n by simp
  then show ?case by blast
qed

lemma join_lookup:
  assumes "list_all (\<lambda>n. n \<in> set primitive_types) ns"
  shows "get_prop ejsonSchemas (join '','' ns) = Inr JUndefined"
proof (cases ns)
  case Nil
  then show ?thesis
    by (simp add: catalog_miss catalog_names_def object_prototype_functions_def)
next
  case (Cons n ms)
  then have n: "n \<in> set primitive_types" using assms by simp
  show ?thesis
  proof (cases ms)
    case Nil
    then show ?thesis using Cons primitive_lookup [OF n, of "[]"] by simp
  next
    case (Cons t ts)
    then show ?thesis
      using \<open>ns = n # ms\<close> primitive_lookup [OF n, of "'','' @ join '','' (t # ts)"] by simp
  qed
qed

lemma structural_type_lookup:
  assumes "structural_type t" and "pure_structural t" and "truthy t"
  shows "\<exists>k. to_property_key t = Inr (Spelled k) \<and> get_prop ejsonSchemas k = Inr JUndefined"
proof (cases t)
  case (JStr n)
  then show ?thesis using assms primitive_lookup [of n "[]"] by simp
next
  case (JArr ts)
  then obtain ns where
    "sequence (map (\<lambda>x. if x = JNull \<or> x = JUndefined then Inr (Spelled [])
                        else to_property_key x) ts)
       = Inr (map Spelled ns)" and "list_all (\<lambda>n. n \<in> set primitive_types) ns"
    using assms(1) join_names [of ts] by auto
  then show ?thesis using JArr by (simp add: join_lookup join_keys_def texts_Spelled)
next
  case (JObj c qs)
  then show ?thesis using assms
    by (simp add: catalog_miss catalog_names_def object_prototype_functions_def)
qed (use assms in simp_all)

lemma structural_no_replacement:
  assumes "pure_structural (JObj c ps)"
  shows "schemaReplacement (JObj c ps) = Inr JUndefined"
proof (cases "map_of ps ''type''")
  case None
  then show ?thesis using assms
    by (simp add: schemaReplacement_def object_prototype_functions_def)
next
  case (Some t)
  then have "(''type'', t) \<in> set ps" by (rule map_of_SomeD)
  then have pt: "pure_structural t" using assms by (auto simp: list_all_iff)
  have st: "structural_type t" using assms Some by simp
  show ?thesis
  proof (cases "truthy t")
    case True
    then obtain k where "to_property_key t = Inr (Spelled k)"
      and "get_prop ejsonSchemas k = Inr JUndefined"
      using structural_type_lookup [OF st pt] by blast
    then show ?thesis using Some True by (simp add: schemaReplacement_def)
  next
    case False
    then show ?thesis using Some by (simp add: schemaReplacement_def)
  qed
qed

lemma mapValues_identity:
  assumes "\<And>p. p \<in> set ps \<Longrightarrow> f (snd p) (fst p) = Inr (snd p)"
  shows "mapValues f ps = Inr (JObj Plain ps)"
proof -
  have "map (\<lambda>p. case f (snd p) (fst p) of Inl e \<Rightarrow> Inl e | Inr u \<Rightarrow> Inr (fst p, u)) ps
      = map Inr ps"
    by (rule map_cong) (simp_all add: assms)
  then show ?thesis by (simp add: mapValues_Inr)
qed

lemma map_array_identity:
  assumes "\<And>x. x \<in> set xs \<Longrightarrow> f x = Inr x"
  shows "map_array f xs = Inr (JArr xs)"
proof -
  have "map f xs = map Inr xs"
    by (rule map_cong) (simp_all add: assms)
  then show ?thesis by (simp add: map_array_Inr)
qed

lemma toJSONSchema_structural:
  "pure_structural schema \<Longrightarrow> toJSONSchema schema = Inr schema"
proof (induction schema rule: toJSONSchema.induct)
  case (1 xs)
  then show ?case by (simp add: map_array_identity list_all_iff)
next
  case (2 c ps)
  have r: "schemaReplacement (JObj c ps) = Inr JUndefined"
    using "2.prems" by (rule structural_no_replacement)
  have "mapValues (\<lambda>v k. toJSONSchema v) ps = Inr (JObj Plain ps)"
  proof (rule mapValues_identity)
    fix p assume p: "p \<in> set ps"
    then have "pure_structural (snd p)" using "2.prems" by (simp add: list_all_iff)
    moreover have "(fst p, snd p) \<in> set ps" using p by simp
    ultimately show "toJSONSchema (snd p) = Inr (snd p)"
      using "2.IH" [of JUndefined "fst p" "snd p"] r by simp
  qed
  then show ?case using r "2.prems" by simp
qed simp_all

text \<open>
  Claim C8. On a pure structural schema the rewriter returns the schema itself, and
  rewriting the result again changes nothing.
\<close>

theorem toJSONSchema_identity:
  assumes "pure_structural schema"
  shows "toJSONSchema schema = Inr schema
    \<and> (case toJSONSchema schema of Inl e \<Rightarrow> Inl e | Inr r \<Rightarrow> toJSONSchema r)
        = toJSONSchema schema"
  using toJSONSchema_structural [OF assms] by simp

theorem toJSONSchema_identity_witness:
  "pure_structural
     (object [(''type'', JStr ''object''),
           (''required'', JArr [JStr ''a'']),
           (''properties'', object
              [(''a'', object [(''type'', JArr [JStr ''string'', JStr ''null''])]),
               (''type'', object [(''type'', JStr ''integer''), (''minimum'', JNum 0)])])])
   \<and> toJSONSchema
     (object [(''type'', JStr ''object''),
           (''required'', JArr [JStr ''a'']),
           (''properties'', object
              [(''a'', object [(''type'', JArr [JStr ''string'', JStr ''null''])]),
               (''type'', object [(''type'', JStr ''integer''), (''minimum'', JNum 0)])])])
   = Inr
     (object [(''type'', JStr ''object''),
           (''required'', JArr [JStr ''a'']),
           (''properties'', object
              [(''a'', object [(''type'', JArr [JStr ''string'', JStr ''null''])]),
               (''type'', object [(''type'', JStr ''integer''), (''minimum'', JNum 0)])])])"
proof -
  let ?s = "object [(''type'', JStr ''object''),
           (''required'', JArr [JStr ''a'']),
           (''properties'', object
              [(''a'', object [(''type'', JArr [JStr ''string'', JStr ''null''])]),
               (''type'', object [(''type'', JStr ''integer''), (''minimum'', JNum 0)])])]"
  have h: "pure_structural ?s"
    by (simp add: object_def primitive_types_def)
  show ?thesis using toJSONSchema_identity [OF h] h by simp
qed

lemma toJSONSchema_array:
  "toJSONSchema (JArr xs) = Inr w \<longleftrightarrow>
     (\<exists>ys. w = JArr ys \<and> list_all2 (\<lambda>x y. toJSONSchema x = Inr y) xs ys)"
proof -
  have "map toJSONSchema xs = map Inr ys \<longleftrightarrow> list_all2 (\<lambda>x y. toJSONSchema x = Inr y) xs ys"
    for ys
    by (induction xs arbitrary: ys) (auto simp: list_all2_Cons1)
  then show ?thesis by (simp add: map_array_Inr)
qed

lemma toJSONSchema_catalog:
  assumes "get_prop (JObj c ps) ''type'' = Inr (JStr n)" and "n \<in> set catalog_names"
  shows "toJSONSchema (JObj c ps) = get_prop ejsonSchemas n"
proof -
  obtain qs where q: "get_prop ejsonSchemas n = Inr (JObj Plain qs)"
    using catalog_hit [OF assms(2)] by blast
  have "n \<noteq> []" using assms(2) by (auto simp: catalog_names_def)
  then have "schemaReplacement (JObj c ps) = Inr (JObj Plain qs)"
    using assms(1) q by (simp add: schemaReplacement_def)
  then show ?thesis using q by simp
qed


lemma catalog_inherited:
  assumes "n \<in> set object_prototype_functions"
  shows "get_prop ejsonSchemas n = Inr (JHost n)"
proof -
  have "n \<notin> set catalog_names"
    using assms unfolding object_prototype_functions_def catalog_names_def by auto
  then have "map_of (case ejsonSchemas of JObj c ps \<Rightarrow> ps) n = None"
    by (simp add: ejsonSchemas_def object_def catalog_names_def)
  then show ?thesis using assms by (simp add: ejsonSchemas_def object_def)
qed

lemma toJSONSchema_inherited:
  assumes "get_prop (JObj c ps) ''type'' = Inr (JStr n)" and "n \<in> set object_prototype_functions"
  shows "toJSONSchema (JObj c ps) = Inr (JHost n)"
proof -
  have "n \<noteq> []" using assms(2) by (auto simp: object_prototype_functions_def)
  then have "schemaReplacement (JObj c ps) = Inr (JHost n)"
    using assms(1) catalog_inherited [OF assms(2)] by (simp add: schemaReplacement_def)
  then show ?thesis by simp
qed

text \<open>
  Claim C3 holds for arrays, for the names of the catalog and for primitive nodes, as
  the lemmas above say, but not for every unknown type: the catalog is looked up
  with the members that every object inherits, so a node whose type is
  \<open>constructor\<close> is not kept with its keys. It is replaced by the inherited function,
  where keeping it would have returned the node.
\<close>

theorem toJSONSchema_constructor:
  "toJSONSchema (object [(''type'', JStr ''constructor''), (''minLength'', JNum 1)])
     = Inr (JHost ''constructor'')
   \<and> ''constructor'' \<notin> set catalog_names
   \<and> mapValues (\<lambda>v k. toJSONSchema v) [(''type'', JStr ''constructor''), (''minLength'', JNum 1)]
     = Inr (object [(''type'', JStr ''constructor''), (''minLength'', JNum 1)])"
proof -
  have t: "get_prop (JObj Plain [(''type'', JStr ''constructor''), (''minLength'', JNum 1)]) ''type''
      = Inr (JStr ''constructor'')"
    by simp
  have m: "''constructor'' \<in> set object_prototype_functions"
    by (simp add: object_prototype_functions_def)
  have "toJSONSchema (object [(''type'', JStr ''constructor''), (''minLength'', JNum 1)])
     = Inr (JHost ''constructor'')"
    unfolding object_def using t m by (rule toJSONSchema_inherited)
  moreover have "''constructor'' \<notin> set catalog_names"
    by (simp add: catalog_names_def)
  moreover have "mapValues (\<lambda>v k. toJSONSchema v)
       [(''type'', JStr ''constructor''), (''minLength'', JNum 1)]
     = Inr (object [(''type'', JStr ''constructor''), (''minLength'', JNum 1)])"
    by (simp add: mapValues_def object_def)
  ultimately show ?thesis by simp
qed


section \<open>Properties of the validator\<close>

lemma validate_unfold:
  assumes "toJSONSchema schema0 = Inr schema"
  shows "validate stringify eng v schema0 =
     (case try_block eng v schema of
        Inl reason \<Rightarrow> Inl (wrapped stringify schema v reason)
      | Inr isValid \<Rightarrow>
          if \<not> isValid then
            (case first_message (zs_getLastErrors eng v schema) of
               Inl e \<Rightarrow> Inl e
             | Inr m \<Rightarrow> Inr \<lparr>valid = False, error = Some m\<rparr>)
          else Inr \<lparr>valid = True, error = None\<rparr>)"
  using assms by (simp add: validate_def)



lemma rule_engine_follows: "follows_draft4 rule_engine"
  by (simp add: follows_draft4_def rule_engine_def)


lemma rewrite_Timestamp:
  "toJSONSchema (object [(''type'', JStr ''Timestamp'')]) =
     Inr (spec_fragment ''$timestamp''
            (object [(''type'', JStr ''object''),
                  (''properties'', object [(''t'', of_type ''number''), (''i'', of_type ''number'')]),
                  (''additionalProperties'', JBool False)]) [])"
proof -
  have "toJSONSchema (JObj Plain [(''type'', JStr ''Timestamp'')]) = get_prop ejsonSchemas ''Timestamp''"
    by (rule toJSONSchema_catalog) (simp_all add: catalog_names_def)
  then show ?thesis
    by (simp add: object_def ejsonSchemas_def spec_fragment_def of_type_def)
qed


lemma Timestamp_described:
  "described (spec_fragment ''$timestamp''
            (object [(''type'', JStr ''object''),
                  (''properties'', object [(''t'', of_type ''number''), (''i'', of_type ''number'')]),
                  (''additionalProperties'', JBool False)]) [])"
  by (simp add: spec_fragment_def object_def of_type_def primitive_types_def)

lemma Timestamp_empty_conforms:
  "conforms (spec_fragment ''$timestamp''
            (object [(''type'', JStr ''object''),
                  (''properties'', object [(''t'', of_type ''number''), (''i'', of_type ''number'')]),
                  (''additionalProperties'', JBool False)]) [])
     (object [(''$timestamp'', object [])])"
  by (simp add: spec_fragment_def object_def of_type_def)














text \<open>
  Claim C10. The fragment of \<open>Timestamp\<close> types \<open>t\<close> and \<open>i\<close> as numbers and
  forbids other keys in the value of \<open>$timestamp\<close>, but that inner schema has no
  \<open>required\<close>; so with an engine that follows the rules of validation, the document
  whose \<open>$timestamp\<close> is the empty object is valid.
\<close>

theorem Timestamp_fields_optional:
  assumes "follows_draft4 eng"
  shows "path ejsonSchemas [''Timestamp'', ''properties'', ''$timestamp'', ''properties'', ''t'']
        = Inr (object [(''type'', JStr ''number'')])
    \<and> path ejsonSchemas [''Timestamp'', ''properties'', ''$timestamp'', ''properties'', ''i'']
        = Inr (object [(''type'', JStr ''number'')])
    \<and> path ejsonSchemas [''Timestamp'', ''properties'', ''$timestamp'', ''additionalProperties'']
        = Inr (JBool False)
    \<and> path ejsonSchemas [''Timestamp'', ''properties'', ''$timestamp'', ''required'']
        = Inr JUndefined
    \<and> validate stringify eng (object [(''$timestamp'', object [])]) (object [(''type'', JStr ''Timestamp'')])
        = Inr \<lparr>valid = True, error = None\<rparr>"
proof -
  let ?frag = "spec_fragment ''$timestamp''
            (object [(''type'', JStr ''object''),
                  (''properties'', object [(''t'', of_type ''number''), (''i'', of_type ''number'')]),
                  (''additionalProperties'', JBool False)]) []"
  let ?doc = "object [(''$timestamp'', object [])]"
  have p: "path ejsonSchemas [''Timestamp'', ''properties'', ''$timestamp'', ''properties'', ''t'']
        = Inr (object [(''type'', JStr ''number'')])"
    "path ejsonSchemas [''Timestamp'', ''properties'', ''$timestamp'', ''properties'', ''i'']
        = Inr (object [(''type'', JStr ''number'')])"
    "path ejsonSchemas [''Timestamp'', ''properties'', ''$timestamp'', ''additionalProperties'']
        = Inr (JBool False)"
    "path ejsonSchemas [''Timestamp'', ''properties'', ''$timestamp'', ''required'']
        = Inr JUndefined"
    by (simp_all add: ejsonSchemas_def object_def object_prototype_functions_def)
  have "zs_validateSchema eng ?frag = Inr True" and "zs_validate eng ?doc ?frag = Inr True"
    using assms Timestamp_described Timestamp_empty_conforms
    by (simp_all add: follows_draft4_def)
  then have "try_block eng ?doc ?frag = Inr True"
    by (simp add: try_block_def)
  then have "validate stringify eng ?doc (object [(''type'', JStr ''Timestamp'')])
        = Inr \<lparr>valid = True, error = None\<rparr>"
    by (simp add: validate_unfold [OF rewrite_Timestamp])
  then show ?thesis using p by simp
qed

theorem Timestamp_fields_optional_witness:
  "follows_draft4 rule_engine
   \<and> validate (\<lambda>v. Inr []) rule_engine (object [(''$timestamp'', object [])])
       (object [(''type'', JStr ''Timestamp'')])
     = Inr \<lparr>valid = True, error = None\<rparr>"
  using Timestamp_fields_optional [OF rule_engine_follows, of "\<lambda>v. Inr []"]
    rule_engine_follows
  by simp


end
